theory Spec2Isabelle
  imports Main "HOL-Library.Sublist"
begin

section \<open>Go strings, indexing and slicing\<close>

text \<open>
  A Go string is a sequence of bytes; \<open>len\<close>, indexing and slicing count bytes.  The model
  is \<^typ>\<open>string\<close>, a list of \<^typ>\<open>char\<close>.  Go's \<open>int\<close> is signed, so that
  \<open>len(s)-1\<close> is \<open>-1\<close> on the empty string; indices are therefore \<^typ>\<open>int\<close>.
  An index expression \<open>s[i]\<close> outside \<open>0 \<le> i < len(s)\<close> and a slice expression
  \<open>s[lo:hi]\<close> outside \<open>0 \<le> lo \<le> hi \<le> len(s)\<close> stop the program with a run-time
  panic, which the model returns as a value.
\<close>

datatype panic = IndexOutOfRange | SliceBoundsOutOfRange

definition len :: "string \<Rightarrow> int" where
  "len s = int (length s)"

definition index :: "string \<Rightarrow> int \<Rightarrow> panic + char" where
  "index s i = (if 0 \<le> i \<and> i < len s then Inr (s ! nat i) else Inl IndexOutOfRange)"

definition slice :: "string \<Rightarrow> int \<Rightarrow> int \<Rightarrow> panic + string" where
  "slice s lo hi =
     (if 0 \<le> lo \<and> lo \<le> hi \<and> hi \<le> len s
      then Inr (take (nat (hi - lo)) (drop (nat lo) s))
      else Inl SliceBoundsOutOfRange)"

text \<open>The comparison \<open>s[i] == c\<close>, which panics when the index does.\<close>

definition byte_is :: "string \<Rightarrow> int \<Rightarrow> char \<Rightarrow> panic + bool" where
  "byte_is s i c = (case index s i of Inl e \<Rightarrow> Inl e | Inr b \<Rightarrow> Inr (b = c))"

text \<open>
  Go's \<open>a && b\<close> evaluates \<open>b\<close> only when \<open>a\<close> is true: a panic of the right operand
  is reached only then.
\<close>

definition andalso :: "panic + bool \<Rightarrow> panic + bool \<Rightarrow> panic + bool" where
  "andalso a b = (case a of Inl e \<Rightarrow> Inl e | Inr True \<Rightarrow> b | Inr False \<Rightarrow> Inr False)"

text \<open>
  \<open>strings.Contains(s, substr)\<close> of the Go standard library reports whether \<open>substr\<close>
  is within \<open>s\<close>: whether \<open>substr\<close> starts at some byte offset of \<open>s\<close>.
\<close>

fun Contains :: "string \<Rightarrow> string \<Rightarrow> bool" where
  "Contains [] substr = (substr = [])"
| "Contains (c # s) substr = (take (length substr) (c # s) = substr \<or> Contains s substr)"

section \<open>The pattern matcher\<close>

text \<open>
  \<open>matchType\<close> is the block of \<open>iota\<close> constants; \<open>Matcher\<close> is the struct.
\<close>

datatype matchType = matchExact | matchPrefix | matchSuffix | matchContains | matchWildcard

record Matcher =
  pattern :: string
  matchType :: matchType

text \<open>
  \<open>NewMatcher\<close>: the \<open>switch\<close> tries its cases in order.  The third case reads
  \<open>s[0]\<close> with no length test before it.
\<close>

definition NewMatcher :: "string \<Rightarrow> panic + Matcher" where
  "NewMatcher s =
     (if s = ''*'' then Inr \<lparr>pattern = [], matchType = matchWildcard\<rparr>
      else case andalso (Inr (len s > 1))
                  (andalso (byte_is s 0 CHR ''*'') (byte_is s (len s - 1) CHR ''*'')) of
        Inl e \<Rightarrow> Inl e
      | Inr True \<Rightarrow>
          (case slice s 1 (len s - 1) of
             Inl e \<Rightarrow> Inl e
           | Inr lit \<Rightarrow> Inr \<lparr>pattern = lit, matchType = matchContains\<rparr>)
      | Inr False \<Rightarrow>
          (case byte_is s 0 CHR ''*'' of
             Inl e \<Rightarrow> Inl e
           | Inr True \<Rightarrow>
               (case slice s 1 (len s) of
                  Inl e \<Rightarrow> Inl e
                | Inr lit \<Rightarrow> Inr \<lparr>pattern = lit, matchType = matchSuffix\<rparr>)
           | Inr False \<Rightarrow>
               (case andalso (Inr (len s > 0)) (byte_is s (len s - 1) CHR ''*'') of
                  Inl e \<Rightarrow> Inl e
                | Inr True \<Rightarrow>
                    (case slice s 0 (len s - 1) of
                       Inl e \<Rightarrow> Inl e
                     | Inr lit \<Rightarrow> Inr \<lparr>pattern = lit, matchType = matchPrefix\<rparr>)
                | Inr False \<Rightarrow> Inr \<lparr>pattern = s, matchType = matchExact\<rparr>)))"

text \<open>\<open>Matcher.Match\<close>: each slice is taken only after its length test.\<close>

definition Match :: "Matcher \<Rightarrow> string \<Rightarrow> panic + bool" where
  "Match m target =
     (case matchType m of
        matchWildcard \<Rightarrow> Inr True
      | matchPrefix \<Rightarrow>
          andalso (Inr (len target \<ge> len (pattern m)))
            (case slice target 0 (len (pattern m)) of
               Inl e \<Rightarrow> Inl e
             | Inr t \<Rightarrow> Inr (t = pattern m))
      | matchSuffix \<Rightarrow>
          andalso (Inr (len target \<ge> len (pattern m)))
            (case slice target (len target - len (pattern m)) (len target) of
               Inl e \<Rightarrow> Inl e
             | Inr t \<Rightarrow> Inr (t = pattern m))
      | matchContains \<Rightarrow> Inr (Contains target (pattern m))
      | matchExact \<Rightarrow> Inr (target = pattern m))"

text \<open>
  The expression \<open>NewMatcher(key).Match(eventType)\<close> of \<open>_MatchedListeners\<close>: compile the
  pattern, then match.
\<close>

definition MatchPattern :: "string \<Rightarrow> string \<Rightarrow> panic + bool" where
  "MatchPattern key eventType =
     (case NewMatcher key of Inl e \<Rightarrow> Inl e | Inr m \<Rightarrow> Match m eventType)"

section \<open>Events and listeners\<close>

text \<open>
  A Go byte slice is \<open>nil\<close> or holds bytes: \<open>None\<close> is the \<open>nil\<close> slice.  A Go
  \<open>error\<close> is modelled by its message.
\<close>

type_synonym bytes = "string option"
type_synonym error = string

text \<open>
  \<open>Event\<close> is an interface with \<open>Type()\<close> and \<open>Payload()\<close>; a value may also implement
  \<open>IsAsync\<close> and \<open>ErrorHandler\<close>, which \<open>_Emit\<close> and \<open>_Trigger\<close> probe by type
  assertion.  The record holds what the two methods return and the outcome of the two
  assertions.
\<close>

record event =
  eventType :: string
  payload :: bytes
  eventIsAsync :: bool
  hasErrorHandler :: bool

definition NewEvent :: "string \<Rightarrow> bytes \<Rightarrow> event" where
  "NewEvent t pl = \<lparr>eventType = t, payload = pl, eventIsAsync = False, hasErrorHandler = False\<rparr>"

text \<open>
  \<open>Listener\<close> is an interface with \<open>Handle(event) error\<close>, where \<open>None\<close> is the \<open>nil\<close>
  error; \<open>name\<close> is \<open>Some n\<close> when the value implements \<open>Namable\<close> with \<open>Name() = n\<close>.
  A handler is modelled by the error it returns for an event; what its body does to the
  registry is kept apart, in the last section of the definitions.
\<close>

record listener =
  name :: "string option"
  handle :: "event \<Rightarrow> error option"
  listenerIsAsync :: bool

definition Namable :: "listener \<Rightarrow> bool" where
  "Namable l = (name l \<noteq> None)"

text \<open>The handler that \<open>NewListener\<close> and \<open>NewNamedListener\<close> put in the place of \<open>nil\<close>.\<close>

definition nopHandle :: "event \<Rightarrow> error option" where
  "nopHandle ev = None"

definition NewListener :: "(event \<Rightarrow> error option) option \<Rightarrow> listener" where
  "NewListener h =
     \<lparr>name = None, handle = (case h of None \<Rightarrow> nopHandle | Some f \<Rightarrow> f),
      listenerIsAsync = False\<rparr>"

definition NewNamedListener :: "string \<Rightarrow> (event \<Rightarrow> error option) option \<Rightarrow> listener" where
  "NewNamedListener n h =
     \<lparr>name = Some n, handle = (case h of None \<Rightarrow> nopHandle | Some f \<Rightarrow> f),
      listenerIsAsync = False\<rparr>"

section \<open>The registry and the dispatcher\<close>

text \<open>
  What a publish does to the outside is a sequence of calls: \<open>Handle l ev\<close> is the inline
  call \<open>l.Handle(ev)\<close>, \<open>ErrorHandler ev err\<close> the inline call
  \<open>ev.ErrorHandler(ev, err)\<close>, and \<open>Go l ev\<close> the launch of the goroutine that will
  deliver \<open>ev\<close> to \<open>l\<close>; what the goroutine does later is not part of the model.
\<close>

datatype action = Handle listener event | ErrorHandler event error | Go listener event

text \<open>
  \<open>Eventify\<close>: the table \<open>listeners\<close> (a \<open>sync.Map\<close> from pattern to listener slice)
  and the calls made so far.  The logger is the default \<open>NoLog\<close>, whose \<open>Debug\<close> does
  nothing; the mutex has no effect on a sequential run.  A Go name that begins with an
  underscore (\<open>_Emit\<close>, \<open>_Trigger\<close>, \<open>_MatchedListeners\<close>, \<open>_AnyToBytes\<close>) ends with a
  prime here.
\<close>

record Eventify =
  listeners :: "string \<rightharpoonup> listener list"
  trace :: "action list"

definition New :: Eventify where
  "New = \<lparr>listeners = Map.empty, trace = []\<rparr>"

text \<open>\<open>LoadOrStore(eventType, []Listener{})\<close>: the slice under the key, empty when absent.\<close>

definition subscribers :: "Eventify \<Rightarrow> string \<Rightarrow> listener list" where
  "subscribers e k = (case listeners e k of None \<Rightarrow> [] | Some ls \<Rightarrow> ls)"

definition Register :: "Eventify \<Rightarrow> string \<Rightarrow> listener \<Rightarrow> Eventify" where
  "Register e t l = e\<lparr>listeners := (listeners e)(t \<mapsto> subscribers e t @ [l])\<rparr>"

text \<open>
  The two nested loops at the end of \<open>Unregister\<close>: for each named registered listener, and
  for each named given listener, the registered one is appended when the names differ.
\<close>

fun keepLoop :: "listener \<Rightarrow> listener list \<Rightarrow> listener list \<Rightarrow> listener list" where
  "keepLoop listener [] newLs = newLs"
| "keepLoop listener (l # namedListeners) newLs =
     keepLoop listener namedListeners
       (if name listener \<noteq> name l then newLs @ [listener] else newLs)"

fun removeLoop :: "listener list \<Rightarrow> listener list \<Rightarrow> listener list \<Rightarrow> listener list" where
  "removeLoop [] namedListeners newLs = newLs"
| "removeLoop (listener # lsCopy) namedListeners newLs =
     removeLoop lsCopy namedListeners (keepLoop listener namedListeners newLs)"

text \<open>
  \<open>Unregister\<close>.  The first loop keeps the given listeners that are \<open>Namable\<close>; the second
  splits the registered ones into the named (\<open>lsCopy\<close>) and the others (\<open>newLs\<close>).  Both
  sides of \<open>listener.Name() != l.Name()\<close> are named, so that comparing the \<open>name\<close> fields
  compares the names.
\<close>

definition Unregister :: "Eventify \<Rightarrow> string \<Rightarrow> listener list \<Rightarrow> Eventify" where
  "Unregister e t given =
     (if given = [] then e\<lparr>listeners := (listeners e)(t := None)\<rparr>
      else let namedListeners = filter Namable given in
        if namedListeners = [] then e
        else case listeners e t of
          None \<Rightarrow> e
        | Some ls \<Rightarrow>
            let lsCopy = filter Namable ls;
                newLs = filter (\<lambda>l. \<not> Namable l) ls
            in if lsCopy = [] then e
               else e\<lparr>listeners := (listeners e)(t \<mapsto> removeLoop lsCopy namedListeners newLs)\<rparr>)"

text \<open>
  \<open>_MatchedListeners\<close>.  \<open>Range\<close> calls the function once for each key of the map, in an
  order that \<open>sync.Map\<close> leaves open: \<open>ks\<close> is that order.  The callback always returns
  \<open>true\<close>, so every key is visited, unless \<open>NewMatcher\<close> panics.
\<close>

fun rangeLoop :: "(string \<rightharpoonup> listener list) \<Rightarrow> string \<Rightarrow> string list \<Rightarrow> listener list
    \<Rightarrow> panic + listener list" where
  "rangeLoop tbl t [] acc = Inr acc"
| "rangeLoop tbl t (key # ks) acc =
     (case tbl key of
        None \<Rightarrow> rangeLoop tbl t ks acc
      | Some value \<Rightarrow>
          (case MatchPattern key t of
             Inl p \<Rightarrow> Inl p
           | Inr True \<Rightarrow> rangeLoop tbl t ks (acc @ value)
           | Inr False \<Rightarrow> rangeLoop tbl t ks acc))"

definition MatchedListeners' :: "Eventify \<Rightarrow> string list \<Rightarrow> string \<Rightarrow> panic + listener list" where
  "MatchedListeners' e ks t = rangeLoop (listeners e) t ks []"

text \<open>An order in which \<open>Range\<close> may visit the table: every key once.\<close>

definition visits :: "Eventify \<Rightarrow> string list \<Rightarrow> bool" where
  "visits e ks = (distinct ks \<and> set ks = dom (listeners e))"

definition Trigger' :: "Eventify \<Rightarrow> event \<Rightarrow> listener \<Rightarrow> bool \<Rightarrow> Eventify" where
  "Trigger' e ev l async =
     (if async then e\<lparr>trace := trace e @ [Go l ev]\<rparr>
      else case handle l ev of
        None \<Rightarrow> e\<lparr>trace := trace e @ [Handle l ev]\<rparr>
      | Some err \<Rightarrow>
          if hasErrorHandler ev
          then e\<lparr>trace := trace e @ [Handle l ev, ErrorHandler ev err]\<rparr>
          else e\<lparr>trace := trace e @ [Handle l ev]\<rparr>)"

definition Emit' :: "Eventify \<Rightarrow> string list \<Rightarrow> event \<Rightarrow> panic + Eventify" where
  "Emit' e ks ev =
     (case MatchedListeners' e ks (eventType ev) of
        Inl p \<Rightarrow> Inl p
      | Inr ls \<Rightarrow>
          Inr (foldl (\<lambda>e' l. Trigger' e' ev l (eventIsAsync ev \<or> listenerIsAsync l)) e ls))"

definition Emit :: "Eventify \<Rightarrow> string list \<Rightarrow> event \<Rightarrow> panic + Eventify" where
  "Emit e ks ev = Emit' e ks ev"

text \<open>
  The payload of \<open>EmitBy\<close> has type \<open>any\<close>: \<open>nil\<close>, a string, a byte slice, a value that
  implements \<open>Event\<close>, or anything else.  \<open>json.Marshal\<close> belongs to the Go standard
  library and is a parameter: it returns the encoding or an error.
\<close>

datatype 'a any = AnyNil | AnyString string | AnyBytes bytes | AnyEvent event | AnyOther 'a

definition AnyToBytes' :: "('a any \<Rightarrow> error + string) \<Rightarrow> 'a any \<Rightarrow> bytes" where
  "AnyToBytes' marshal pl =
     (case pl of
        AnyNil \<Rightarrow> None
      | AnyString p \<Rightarrow> Some p
      | AnyBytes p \<Rightarrow> p
      | _ \<Rightarrow> (case marshal pl of Inl err \<Rightarrow> None | Inr bz \<Rightarrow> Some bz))"

definition EmitBy :: "('a any \<Rightarrow> error + string) \<Rightarrow> Eventify \<Rightarrow> string list \<Rightarrow> string \<Rightarrow> 'a any
    \<Rightarrow> panic + Eventify" where
  "EmitBy marshal e ks t pl =
     (case pl of
        AnyEvent ev \<Rightarrow> Emit' e ks ev
      | _ \<Rightarrow> Emit' e ks (NewEvent t (AnyToBytes' marshal pl)))"

text \<open>Reading a trace: the listeners called inline, and the listeners delivered to at all.\<close>

fun handled :: "action list \<Rightarrow> listener list" where
  "handled [] = []"
| "handled (Handle l ev # as) = l # handled as"
| "handled (a # as) = handled as"

fun delivered :: "action list \<Rightarrow> listener list" where
  "delivered [] = []"
| "delivered (Handle l ev # as) = l # delivered as"
| "delivered (Go l ev # as) = l # delivered as"
| "delivered (a # as) = delivered as"

text \<open>
  The specification's words for a synchronous delivery to one subscriber, when the event
  carries a failure callback: the handler is invoked inline and, if it returns a failure,
  the callback is invoked inline with the event and that error, before the next
  subscriber.  This is what the trace of \<open>_Trigger\<close> is compared with.
\<close>

definition syncDelivery :: "event \<Rightarrow> listener \<Rightarrow> action list" where
  "syncDelivery ev l =
     Handle l ev # (case handle l ev of None \<Rightarrow> [] | Some err \<Rightarrow> [ErrorHandler ev err])"

text \<open>
  A stand-in for \<open>json.Marshal\<close> at the \<open>nil\<close> interface value, which it encodes as the
  four bytes \<open>null\<close> with no error.
\<close>

definition marshalNull :: "unit any \<Rightarrow> error + string" where
  "marshalNull v = Inr ''null''"

text \<open>
  The fixtures of the repository's test of error handling: a handler that fails on every
  event, and the event \<open>mockErrorEvent\<close>, which implements \<open>ErrorHandler\<close>.
\<close>

definition failingHandle :: "event \<Rightarrow> error option" where
  "failingHandle ev = Some ''assert.AnError general error for testing''"

definition mockErrorEvent :: event where
  "mockErrorEvent =
     \<lparr>eventType = ''error.event'', payload = None, eventIsAsync = False, hasErrorHandler = True\<rparr>"

section \<open>Handlers that act on the registry\<close>

text \<open>
  \<open>_Trigger\<close> calls \<open>listener.Handle(event)\<close> and the failure callback inline, and
  \<open>_Emit\<close> holds no lock meanwhile: the body of a handler or of a callback is Go code that
  may call \<open>Register\<close> or \<open>Unregister\<close> on the same \<open>Eventify\<close>.  The functions above take
  a handler for the error it returns, which is all that decides the calls of a publish:
  \<open>_MatchedListeners\<close> has collected the listeners before the first handler runs.  For
  what a publish leaves in the table, the same two functions are modelled again with the
  bodies made explicit: \<open>fx l ev\<close> is what the body of \<open>l.Handle(ev)\<close> does to the
  \<open>Eventify\<close>, and \<open>cb ev err\<close> what the body of \<open>ev.ErrorHandler(ev, err)\<close> does.  The
  goroutine of an asynchronous delivery runs on its own; as above, only its launch is part
  of the model.
\<close>

type_synonym handlerEffect = "listener \<Rightarrow> event \<Rightarrow> Eventify \<Rightarrow> Eventify"
type_synonym callbackEffect = "event \<Rightarrow> error \<Rightarrow> Eventify \<Rightarrow> Eventify"

definition Trigger_fx :: "handlerEffect \<Rightarrow> callbackEffect \<Rightarrow> Eventify \<Rightarrow> event \<Rightarrow> listener \<Rightarrow> bool
    \<Rightarrow> Eventify" where
  "Trigger_fx fx cb e ev l async =
     (if async then e\<lparr>trace := trace e @ [Go l ev]\<rparr>
      else let e1 = fx l ev (e\<lparr>trace := trace e @ [Handle l ev]\<rparr>) in
        case handle l ev of
          None \<Rightarrow> e1
        | Some err \<Rightarrow>
            if hasErrorHandler ev
            then cb ev err (e1\<lparr>trace := trace e1 @ [ErrorHandler ev err]\<rparr>)
            else e1)"

definition Emit_fx :: "handlerEffect \<Rightarrow> callbackEffect \<Rightarrow> Eventify \<Rightarrow> string list \<Rightarrow> event
    \<Rightarrow> panic + Eventify" where
  "Emit_fx fx cb e ks ev =
     (case MatchedListeners' e ks (eventType ev) of
        Inl p \<Rightarrow> Inl p
      | Inr ls \<Rightarrow>
          Inr (foldl (\<lambda>e' l. Trigger_fx fx cb e' ev l (eventIsAsync ev \<or> listenerIsAsync l))
                 e ls))"


text \<open>Handlers and callbacks whose bodies leave the \<open>Eventify\<close> alone.\<close>

definition noEffect :: handlerEffect where
  "noEffect l ev e = e"

definition noCallbackEffect :: callbackEffect where
  "noCallbackEffect ev err e = e"


section \<open>Facts about indexing and slicing\<close>

lemma andalso_simps:
  "andalso (Inr True) b = b" "andalso (Inr False) b = Inr False" "andalso (Inl e) b = Inl e"
  by (simp_all add: andalso_def)

lemma len_two: "1 < len (c # s @ [d])"
  by (simp add: len_def)

lemma len_pos: "0 < len (c # s)"
  by (simp add: len_def)

lemma index_first: "index (c # s) 0 = Inr c"
  by (simp add: index_def len_def)

lemma index_last: "index (s @ [c]) (len (s @ [c]) - 1) = Inr c"
  by (simp add: index_def len_def)

lemma index_last_Cons: "index (d # s @ [c]) (len (d # s @ [c]) - 1) = Inr c"
  using index_last [of "d # s" c] by simp

lemma slice_tail: "slice (c # s) 1 (len (c # s)) = Inr s"
  by (simp add: slice_def len_def)

lemma slice_front: "slice (s @ [c]) 0 (len (s @ [c]) - 1) = Inr s"
  by (simp add: slice_def len_def)

lemma slice_inner: "slice (c # s @ [d]) 1 (len (c # s @ [d]) - 1) = Inr s"
  by (simp add: slice_def len_def)

lemma Contains_sublist: "Contains s sub = sublist sub s"
proof (induction s)
  case Nil
  then show ?case by auto
next
  case (Cons c s)
  have "take (length sub) (c # s) = sub \<longleftrightarrow> prefix sub (c # s)"
    unfolding prefix_def by (metis append_eq_conv_conj)
  with Cons.IH show ?case
    by (simp add: sublist_Cons_right)
qed

section \<open>How \<open>NewMatcher\<close> classifies a pattern\<close>

lemma NewMatcher_Nil: "NewMatcher [] = Inl IndexOutOfRange"
  by (simp add: NewMatcher_def andalso_simps byte_is_def index_def len_def)

lemma NewMatcher_wildcard: "NewMatcher ''*'' = Inr \<lparr>pattern = [], matchType = matchWildcard\<rparr>"
  by (simp add: NewMatcher_def)

lemma NewMatcher_contains:
  "NewMatcher (CHR ''*'' # lit @ ''*'') = Inr \<lparr>pattern = lit, matchType = matchContains\<rparr>"
  by (simp add: NewMatcher_def andalso_simps byte_is_def index_first index_last_Cons
      slice_inner len_two)

lemma NewMatcher_suffix:
  assumes "lit \<noteq> []" and "last lit \<noteq> CHR ''*''"
  shows "NewMatcher (CHR ''*'' # lit) = Inr \<lparr>pattern = lit, matchType = matchSuffix\<rparr>"
proof -
  obtain s c where l: "lit = s @ [c]" and c: "c \<noteq> CHR ''*''"
    using assms by (metis append_butlast_last_id)
  show ?thesis
    unfolding l
    by (simp add: NewMatcher_def andalso_simps byte_is_def index_first index_last_Cons
        slice_tail c len_two)
qed

lemma NewMatcher_prefix:
  assumes "pre \<noteq> []" and "hd pre \<noteq> CHR ''*''"
  shows "NewMatcher (pre @ ''*'') = Inr \<lparr>pattern = pre, matchType = matchPrefix\<rparr>"
proof -
  obtain c s where p: "pre = c # s" and c: "c \<noteq> CHR ''*''"
    using assms by (cases pre) auto
  have i0: "index (c # s @ ''*'') 0 = Inr c"
    by (rule index_first)
  have il: "index (c # s @ ''*'') (len (c # s @ ''*'') - 1) = Inr CHR ''*''"
    by (rule index_last_Cons)
  have sl: "slice (c # s @ ''*'') 0 (len (c # s @ ''*'') - 1) = Inr (c # s)"
    using slice_front [of "c # s" "CHR ''*''"] by simp
  show ?thesis
    unfolding p by (simp add: NewMatcher_def andalso_simps byte_is_def i0 il sl c len_two len_pos)
qed

lemma NewMatcher_exact:
  assumes "s \<noteq> []" and "hd s \<noteq> CHR ''*''" and "last s \<noteq> CHR ''*''"
  shows "NewMatcher s = Inr \<lparr>pattern = s, matchType = matchExact\<rparr>"
proof -
  have i0: "index s 0 = Inr (hd s)"
    using assms(1) by (cases s) (simp_all add: index_first)
  have il: "index s (len s - 1) = Inr (last s)"
    using assms(1) index_last [of "butlast s" "last s"] by simp
  show ?thesis
    using assms
    by (cases "1 < len s"; cases "0 < len s")
       (auto simp add: NewMatcher_def andalso_simps byte_is_def i0 il)
qed

text \<open>Every pattern but the empty one compiles.\<close>

lemma NewMatcher_total:
  assumes "s \<noteq> []"
  shows "\<exists>m. NewMatcher s = Inr m"
proof (cases "hd s = CHR ''*''")
  case True
  then obtain r where s: "s = CHR ''*'' # r"
    using assms by (cases s) auto
  show ?thesis
  proof (cases "r = []")
    case True
    with s show ?thesis by (simp add: NewMatcher_wildcard)
  next
    case False
    show ?thesis
    proof (cases "last r = CHR ''*''")
      case True
      with False have "r = butlast r @ ''*''"
        by (metis append_butlast_last_id)
      then have "s = CHR ''*'' # butlast r @ ''*''"
        using s by simp
      then show ?thesis
        using NewMatcher_contains [of "butlast r"] by simp
    next
      case False
      with \<open>r \<noteq> []\<close> s show ?thesis by (simp add: NewMatcher_suffix)
    qed
  qed
next
  case False
  show ?thesis
  proof (cases "last s = CHR ''*''")
    case True
    with assms have e: "s = butlast s @ ''*''"
      by (metis append_butlast_last_id)
    with False have "butlast s \<noteq> []" and "hd (butlast s) \<noteq> CHR ''*''"
      by (metis append_Nil list.sel(1), metis append_Nil hd_append2 list.sel(1))
    then show ?thesis
      using NewMatcher_prefix [of "butlast s"] e by simp
  next
    case l: False
    with False assms show ?thesis by (simp add: NewMatcher_exact)
  qed
qed

section \<open>What \<open>Match\<close> decides\<close>

text \<open>\<open>Match\<close> never panics: both slices are within range once the length test has passed.\<close>

lemma Match_total: "\<exists>b. Match m target = Inr b"
  by (cases "matchType m") (auto simp add: Match_def andalso_def slice_def len_def)

lemma MatchPattern_total: "key \<noteq> [] \<Longrightarrow> \<exists>b. MatchPattern key t = Inr b"
  using NewMatcher_total [of key] Match_total by (auto simp add: MatchPattern_def)

lemma MatchPattern_Nil: "MatchPattern [] t = Inl IndexOutOfRange"
  by (simp add: MatchPattern_def NewMatcher_Nil)

lemma Match_wildcard: "Match \<lparr>pattern = lit, matchType = matchWildcard\<rparr> target = Inr True"
  by (simp add: Match_def)

lemma Match_exact: "Match \<lparr>pattern = lit, matchType = matchExact\<rparr> target = Inr (target = lit)"
  by (simp add: Match_def)

lemma Match_contains:
  "Match \<lparr>pattern = lit, matchType = matchContains\<rparr> target = Inr (sublist lit target)"
  by (simp add: Match_def Contains_sublist)

lemma Match_prefix:
  "Match \<lparr>pattern = lit, matchType = matchPrefix\<rparr> target = Inr (prefix lit target)"
proof -
  have "take (length lit) target = lit \<longleftrightarrow> prefix lit target"
    unfolding prefix_def by (metis append_eq_conv_conj)
  moreover have "\<not> length lit \<le> length target \<Longrightarrow> \<not> prefix lit target"
    by (auto simp add: prefix_def)
  ultimately show ?thesis
    by (auto simp add: Match_def andalso_def slice_def len_def)
qed

lemma Match_suffix:
  "Match \<lparr>pattern = lit, matchType = matchSuffix\<rparr> target = Inr (suffix lit target)"
proof (cases "length lit \<le> length target")
  case True
  have "drop (length target - length lit) target = lit \<longleftrightarrow> suffix lit target"
  proof
    assume "drop (length target - length lit) target = lit"
    then have "target = take (length target - length lit) target @ lit"
      by (metis append_take_drop_id)
    then show "suffix lit target"
      unfolding suffix_def by blast
  next
    assume "suffix lit target"
    then show "drop (length target - length lit) target = lit"
      by (auto simp add: suffix_def)
  qed
  with True show ?thesis
    by (simp add: Match_def andalso_def slice_def len_def nat_diff_distrib')
next
  case False
  then have "\<not> suffix lit target"
    by (auto simp add: suffix_def)
  with False show ?thesis
    by (simp add: Match_def andalso_def slice_def len_def)
qed

section \<open>Matching concrete patterns\<close>


lemma MatchPattern_exact:
  "s \<noteq> [] \<Longrightarrow> hd s \<noteq> CHR ''*'' \<Longrightarrow> last s \<noteq> CHR ''*'' \<Longrightarrow> MatchPattern s t = Inr (t = s)"
  by (simp add: MatchPattern_def NewMatcher_exact Match_exact)

lemma MatchPattern_prefix:
  "pre \<noteq> [] \<Longrightarrow> hd pre \<noteq> CHR ''*'' \<Longrightarrow> MatchPattern (pre @ ''*'') t = Inr (prefix pre t)"
  by (simp add: MatchPattern_def NewMatcher_prefix Match_prefix)

lemma MatchPattern_suffix:
  "lit \<noteq> [] \<Longrightarrow> last lit \<noteq> CHR ''*'' \<Longrightarrow> MatchPattern (CHR ''*'' # lit) t = Inr (suffix lit t)"
  by (simp add: MatchPattern_def NewMatcher_suffix Match_suffix)

section \<open>The claims about the matcher\<close>

text \<open>
  C2 (the code departs from it).  \<open>NewMatcher\<close> is not defined on the empty pattern: the
  first two cases of the \<open>switch\<close> fail, and the third reads \<open>s[0]\<close> of the empty string,
  which is out of range, before the guarded fourth case and the default are reached.
  So the empty pattern is not classified \<open>Exact\<close>, and matching any name against it,
  the empty name too, panics; once a listener is registered under the empty pattern,
  every publish panics.  (\<open>NewMatcher_total\<close> and \<open>Match_total\<close> above are the part
  of the claim that holds: every other pattern compiles, and \<open>Match\<close> never reads out of
  range.)
\<close>

theorem C2_empty_pattern_panics:
  "NewMatcher [] = Inl IndexOutOfRange \<and> MatchPattern [] [] = Inl IndexOutOfRange \<and>
   Emit (Register New [] (NewListener None)) [[]] (NewEvent ''test.event'' None)
     = Inl IndexOutOfRange"
  by (simp add: MatchPattern_def NewMatcher_def andalso_simps byte_is_def index_def len_def
      Emit_def Emit'_def MatchedListeners'_def Register_def New_def NewEvent_def)

text \<open>
  C4.  \<open>*mid*\<close> matches exactly the names that contain \<open>mid\<close>; and a pattern longer than
  one byte whose first and last bytes are the wildcard marker matches exactly the names
  that contain the bytes between the two markers (\<^const>\<open>sublist\<close>: as a full match, at
  either end or inside).
\<close>

theorem C4_contains_pattern:
  "MatchPattern ''*mid*'' nm = Inr (sublist ''mid'' nm) \<and>
   (1 < length p \<and> hd p = CHR ''*'' \<and> last p = CHR ''*'' \<longrightarrow>
      MatchPattern p target = Inr (sublist (butlast (tl p)) target))"
proof
  show "MatchPattern ''*mid*'' nm = Inr (sublist ''mid'' nm)"
    using NewMatcher_contains [of "''mid''"] by (simp add: MatchPattern_def Match_contains)
next
  show "1 < length p \<and> hd p = CHR ''*'' \<and> last p = CHR ''*'' \<longrightarrow>
      MatchPattern p target = Inr (sublist (butlast (tl p)) target)"
  proof
    assume h: "1 < length p \<and> hd p = CHR ''*'' \<and> last p = CHR ''*''"
    then obtain r where p: "p = CHR ''*'' # r" and r: "r \<noteq> []"
      by (cases p) auto
    from h p r have "last r = CHR ''*''"
      by simp
    with r have "r = butlast r @ ''*''"
      by (metis append_butlast_last_id)
    with p have e: "p = CHR ''*'' # butlast r @ ''*''"
      by simp
    have "MatchPattern (CHR ''*'' # butlast r @ ''*'') target = Inr (sublist (butlast r) target)"
      by (simp add: MatchPattern_def NewMatcher_contains Match_contains)
    moreover have "butlast (tl p) = butlast r"
      using p by simp
    ultimately show "MatchPattern p target = Inr (sublist (butlast (tl p)) target)"
      using e by simp
  qed
qed

theorem C4_contains_pattern_witness:
  "MatchPattern ''*mid*'' ''amidst'' = Inr True \<and>
   1 < length ''*test*'' \<and> hd ''*test*'' = CHR ''*'' \<and> last ''*test*'' = CHR ''*'' \<and>
   MatchPattern ''*test*'' ''1te st1'' = Inr False"
proof -
  have a: "sublist ''mid'' ''amidst''"
    by (simp add: Contains_sublist [symmetric])
  have b: "\<not> sublist ''test'' ''1te st1''"
    by (simp add: Contains_sublist [symmetric])
  show ?thesis
    using C4_contains_pattern [of "''amidst''" "''*test*''" "''1te st1''"] a b by simp
qed

text \<open>
  C5 (as stated, false).  The claim lets the prefix begin with the wildcard marker.  Then
  the second case of the \<open>switch\<close> wins over the fourth: \<open>**\<close> is a contains pattern
  with an empty literal and matches the name \<open>a\<close>, which does not start with \<open>*\<close>.
\<close>

theorem C5_counterexample:
  "MatchPattern (''*'' @ ''*'') ''a'' = Inr True \<and> \<not> prefix ''*'' ''a''"
  using NewMatcher_contains [of "[]"] by (simp add: MatchPattern_def Match_def)

text \<open>
  C5 (amended).  For every prefix that does not begin with the wildcard marker, the
  pattern \<open>prefix*\<close> matches exactly the names that start with the prefix; a name shorter
  than the prefix is not matched.
\<close>

theorem C5_prefix_pattern:
  assumes "\<not> prefix ''*'' pre"
  shows "MatchPattern (pre @ ''*'') target = Inr (prefix pre target) \<and>
         (length target < length pre \<longrightarrow> MatchPattern (pre @ ''*'') target = Inr False)"
proof -
  have m: "MatchPattern (pre @ ''*'') target = Inr (prefix pre target)"
  proof (cases "pre = []")
    case True
    then show ?thesis
      by (simp add: MatchPattern_def NewMatcher_wildcard Match_wildcard)
  next
    case False
    with assms have "hd pre \<noteq> CHR ''*''"
      by (cases pre) auto
    with False show ?thesis
      by (simp add: MatchPattern_def NewMatcher_prefix Match_prefix)
  qed
  moreover have "length target < length pre \<Longrightarrow> \<not> prefix pre target"
    by (auto simp add: prefix_def)
  ultimately show ?thesis
    by simp
qed

theorem C5_prefix_pattern_witness:
  "\<not> prefix ''*'' ''test'' \<and>
   MatchPattern (''test'' @ ''*'') ''test3'' = Inr True \<and>
   MatchPattern (''test'' @ ''*'') ''1test3'' = Inr False \<and>
   length ''te'' < length ''test'' \<and> MatchPattern (''test'' @ ''*'') ''te'' = Inr False"
  using C5_prefix_pattern [of "''test''" "''test3''"]
    C5_prefix_pattern [of "''test''" "''1test3''"]
    C5_prefix_pattern [of "''test''" "''te''"]
  by simp


section \<open>The registry\<close>

lemma keepLoop_replicate:
  "keepLoop l gs acc = acc @ replicate (length (filter (\<lambda>g. name l \<noteq> name g) gs)) l"
  by (induction gs arbitrary: acc) (simp_all add: replicate_app_Cons_same)

lemma removeLoop_concat:
  "removeLoop ls gs acc =
     acc @ concat (map (\<lambda>l. replicate (length (filter (\<lambda>g. name l \<noteq> name g) gs)) l) ls)"
  by (induction ls arbitrary: acc) (simp_all add: keepLoop_replicate)

text \<open>With one named listener given, the loops keep what a filter keeps.\<close>

lemma removeLoop_single: "removeLoop ls [g] acc = acc @ filter (\<lambda>l. name l \<noteq> name g) ls"
  by (induction ls arbitrary: acc) simp_all

text \<open>When every given name equals every registered name, nothing is kept.\<close>

lemma removeLoop_all_equal:
  assumes "\<forall>l\<in>set ls. \<forall>g\<in>set gs. name g = name l"
  shows "removeLoop ls gs acc = acc"
proof -
  have "\<And>l. l \<in> set ls \<Longrightarrow> filter (\<lambda>g. name l \<noteq> name g) gs = []"
    using assms by (auto simp add: filter_empty_conv)
  then have "concat (map (\<lambda>l. replicate (length (filter (\<lambda>g. name l \<noteq> name g) gs)) l) ls) = []"
    by simp
  then show ?thesis
    by (simp add: removeLoop_concat)
qed

lemma Unregister_single:
  assumes "listeners e t = Some ls" and "Namable g" and "\<exists>l\<in>set ls. Namable l"
  shows "listeners (Unregister e t [g]) t =
           Some (filter (\<lambda>l. \<not> Namable l) ls @ filter (\<lambda>l. name l \<noteq> name g) (filter Namable ls))"
proof -
  have "filter Namable ls \<noteq> []"
    using assms(3) by (auto simp add: filter_empty_conv)
  then show ?thesis
    using assms(1,2) by (simp add: Unregister_def Let_def removeLoop_single)
qed

lemma Unregister_other_key: "k \<noteq> t \<Longrightarrow> listeners (Unregister e t given) k = listeners e k"
  by (simp add: Unregister_def Let_def split: option.splits)






text \<open>
  C1 (the code departs from it).  Three named listeners \<open>a\<close>, \<open>b\<close>, \<open>c\<close> are registered
  under \<open>p\<close>, and \<open>a\<close> and \<open>b\<close> are given to \<open>Unregister\<close>.  The inner loop appends a
  registered listener once for every given name that differs from its own: \<open>a\<close> is kept
  because it differs from \<open>b\<close>, \<open>b\<close> because it differs from \<open>a\<close>, and \<open>c\<close> is stored
  twice.  Nothing is removed and \<open>c\<close> is duplicated.  (With a single named listener given,
  \<open>Unregister_single\<close> above shows the removal the claim describes.)
\<close>

theorem C1_two_identities_given:
  "listeners
     (Unregister
        (Register (Register (Register New ''p'' (NewNamedListener ''a'' None))
           ''p'' (NewNamedListener ''b'' None)) ''p'' (NewNamedListener ''c'' None))
        ''p'' [NewNamedListener ''a'' None, NewNamedListener ''b'' None]) ''p''
   = Some [NewNamedListener ''a'' None, NewNamedListener ''b'' None,
           NewNamedListener ''c'' None, NewNamedListener ''c'' None]"
  by (simp add: Unregister_def Register_def New_def subscribers_def Namable_def
      NewNamedListener_def)

text \<open>
  C3 (as stated, false).  One named listener is registered under \<open>p\<close> and then removed by
  its identity: the entry for \<open>p\<close> is stored again with an empty slice, while the explicit
  remove-all deletes it.
\<close>

theorem C3_counterexample:
  "listeners
     (Unregister (Register New ''p'' (NewNamedListener ''a'' None)) ''p''
        [NewNamedListener ''a'' None]) ''p'' = Some [] \<and>
   listeners (Unregister (Register New ''p'' (NewNamedListener ''a'' None)) ''p'' []) ''p'' = None"
  by (simp add: Unregister_def Register_def New_def subscribers_def Namable_def
      NewNamedListener_def)

text \<open>
  C3 (amended).  When every listener registered under \<open>p\<close> is named and bears the one
  identity that the given listeners carry, \<open>Unregister\<close> leaves the entry for \<open>p\<close> in the
  table with an empty subscriber list, so that a publish finds no subscriber under \<open>p\<close>;
  only the explicit remove-all (no listener given) makes the entry absent.
\<close>

theorem C3_entry_kept_empty:
  assumes "listeners e t = Some ls"
    and "\<forall>l\<in>set ls. Namable l"
    and "\<exists>g\<in>set given. Namable g"
    and "\<forall>l\<in>set ls. \<forall>g\<in>set given. Namable g \<longrightarrow> name g = name l"
  shows "listeners (Unregister e t given) t = Some [] \<and>
         subscribers (Unregister e t given) t = [] \<and>
         listeners (Unregister e t []) t = None"
proof -
  have g: "given \<noteq> []" and n: "filter Namable given \<noteq> []"
    using assms(3) by (auto simp add: filter_empty_conv)
  have u: "filter (\<lambda>l. \<not> Namable l) ls = []"
    using assms(2) by (simp add: filter_empty_conv)
  have c: "filter Namable ls = ls"
    using assms(2) by simp
  have r: "removeLoop ls (filter Namable given) [] = []"
    using assms(4) by (intro removeLoop_all_equal) simp
  have "listeners (Unregister e t given) t = Some []"
  proof (cases "ls = []")
    case True
    then show ?thesis
      using assms(1) g n by (simp add: Unregister_def Let_def)
  next
    case False
    then show ?thesis
      using assms(1) g n u c r by (simp add: Unregister_def Let_def)
  qed
  moreover have "listeners (Unregister e t []) t = None"
    by (simp add: Unregister_def)
  ultimately show ?thesis
    by (simp add: subscribers_def)
qed

theorem C3_entry_kept_empty_witness:
  "listeners (Register (Register New ''p'' (NewNamedListener ''a'' None)) ''p''
       (NewNamedListener ''a'' (Some nopHandle))) ''p''
     = Some [NewNamedListener ''a'' None, NewNamedListener ''a'' (Some nopHandle)] \<and>
   listeners
     (Unregister
        (Register (Register New ''p'' (NewNamedListener ''a'' None)) ''p''
           (NewNamedListener ''a'' (Some nopHandle)))
        ''p'' [NewListener None, NewNamedListener ''a'' None]) ''p'' = Some []"
proof -
  let ?a = "NewNamedListener ''a'' None"
  let ?b = "NewNamedListener ''a'' (Some nopHandle)"
  let ?e = "Register (Register New ''p'' ?a) ''p'' ?b"
  have 1: "listeners ?e ''p'' = Some [?a, ?b]"
    by (simp add: Register_def New_def subscribers_def)
  have 2: "\<forall>l\<in>set [?a, ?b]. Namable l"
    by (simp add: Namable_def NewNamedListener_def)
  have 3: "\<exists>g\<in>set [NewListener None, ?a]. Namable g"
    by (simp add: Namable_def NewNamedListener_def)
  have 4: "\<forall>l\<in>set [?a, ?b]. \<forall>g\<in>set [NewListener None, ?a]. Namable g \<longrightarrow> name g = name l"
    by (simp add: Namable_def NewNamedListener_def NewListener_def)
  show ?thesis
    using C3_entry_kept_empty [OF 1 2 3 4] 1 by simp
qed


section \<open>The dispatcher\<close>

lemma handled_append: "handled (xs @ ys) = handled xs @ handled ys"
  by (induction xs rule: handled.induct) simp_all

lemma delivered_append: "delivered (xs @ ys) = delivered xs @ delivered ys"
  by (induction xs rule: delivered.induct) simp_all

lemma listeners_Trigger: "listeners (Trigger' e ev l a) = listeners e"
  by (simp add: Trigger'_def split: option.splits)

lemma listeners_deliveries:
  "listeners (foldl (\<lambda>e' l. Trigger' e' ev l (A l)) e ls) = listeners e"
  by (induction ls arbitrary: e) (simp_all add: listeners_Trigger)

lemma trace_Trigger_sync:
  "hasErrorHandler ev \<Longrightarrow> trace (Trigger' e ev l False) = trace e @ syncDelivery ev l"
  by (simp add: Trigger'_def syncDelivery_def split: option.splits)

lemma trace_deliveries_sync:
  assumes "hasErrorHandler ev" and "\<forall>l\<in>set ls. \<not> A l"
  shows "trace (foldl (\<lambda>e' l. Trigger' e' ev l (A l)) e ls)
           = trace e @ concat (map (syncDelivery ev) ls)"
  using assms(2)
proof (induction ls arbitrary: e)
  case Nil
  then show ?case by simp
next
  case (Cons l ls)
  then show ?case
    by (simp add: trace_Trigger_sync [OF assms(1)])
qed

lemma handled_Trigger:
  "handled (trace (Trigger' e ev l a)) = handled (trace e) @ (if a then [] else [l])"
  by (simp add: Trigger'_def handled_append split: option.splits)

lemma handled_deliveries:
  "\<forall>l\<in>set ls. \<not> A l \<Longrightarrow>
     handled (trace (foldl (\<lambda>e' l. Trigger' e' ev l (A l)) e ls)) = handled (trace e) @ ls"
  by (induction ls arbitrary: e) (simp_all add: handled_Trigger)

lemma delivered_Trigger: "delivered (trace (Trigger' e ev l a)) = delivered (trace e) @ [l]"
  by (simp add: Trigger'_def delivered_append split: option.splits)

lemma delivered_deliveries:
  "delivered (trace (foldl (\<lambda>e' l. Trigger' e' ev l (A l)) e ls)) = delivered (trace e) @ ls"
  by (induction ls arbitrary: e) (simp_all add: delivered_Trigger)


lemma rangeLoop_total:
  "[] \<notin> set ks \<Longrightarrow> \<exists>ls. rangeLoop tbl t ks acc = Inr ls"
proof (induction ks arbitrary: acc)
  case Nil
  then show ?case by simp
next
  case (Cons k ks)
  then have "k \<noteq> []" and "[] \<notin> set ks"
    by auto
  from MatchPattern_total [OF \<open>k \<noteq> []\<close>, of t] obtain b where "MatchPattern k t = Inr b"
    by blast
  with Cons.IH [OF \<open>[] \<notin> set ks\<close>] show ?case
    by (cases "tbl k"; cases b) simp_all
qed


lemma MatchedListeners_total: "[] \<notin> set ks \<Longrightarrow> \<exists>ls. MatchedListeners' e ks t = Inr ls"
  by (simp add: MatchedListeners'_def rangeLoop_total)

lemma Emit_total: "[] \<notin> set ks \<Longrightarrow> \<exists>e'. Emit' e ks ev = Inr e'"
  using MatchedListeners_total [of ks e "eventType ev"] by (auto simp add: Emit'_def)

lemma Emit_listeners: "Emit' e ks ev = Inr e' \<Longrightarrow> listeners e' = listeners e"
  by (auto simp add: Emit'_def listeners_deliveries split: sum.splits)


lemma visits_pair:
  assumes "distinct ks" and "set ks = {a, b}" and "a \<noteq> b"
  shows "ks = [a, b] \<or> ks = [b, a]"
proof -
  have "length ks = 2"
    using distinct_card [OF assms(1)] assms(2,3) by simp
  then obtain x y where k: "ks = [x, y]"
    by (cases ks; cases "tl ks") auto
  with assms(2) have "{x, y} = {a, b}"
    by simp
  then have "x = a \<and> y = b \<or> x = b \<and> y = a"
    by (simp add: doubleton_eq_iff)
  with k show ?thesis
    by auto
qed

text \<open>
  C6.  In a synchronous publish (neither the event nor a matched listener is
  asynchronous) of an event that carries a failure callback, let \<open>l\<close> be a matched
  listener whose handler returns the error \<open>err\<close>.  The publish completes without passing
  any error to the publisher, and its calls are: the deliveries to the listeners before
  \<open>l\<close>, then the handler of \<open>l\<close> and the callback, once, with the event and \<open>err\<close>, then
  the deliveries to the listeners after \<open>l\<close>, each made as if \<open>l\<close> had not failed.  Every
  matched listener is called exactly once.
\<close>

theorem C6_failure_callback:
  assumes "MatchedListeners' e ks (eventType ev) = Inr (before @ l # after)"
    and "\<not> eventIsAsync ev"
    and "\<forall>x\<in>set (before @ l # after). \<not> listenerIsAsync x"
    and "hasErrorHandler ev"
    and "handle l ev = Some err"
  shows "\<exists>e'. Emit' e ks ev = Inr e' \<and>
           trace e' = trace e @ concat (map (syncDelivery ev) before)
                        @ [Handle l ev, ErrorHandler ev err]
                        @ concat (map (syncDelivery ev) after) \<and>
           handled (trace e') = handled (trace e) @ before @ l # after"
proof -
  let ?A = "\<lambda>x. eventIsAsync ev \<or> listenerIsAsync x"
  let ?e' = "foldl (\<lambda>e' x. Trigger' e' ev x (?A x)) e (before @ l # after)"
  have s: "\<forall>x\<in>set (before @ l # after). \<not> ?A x"
    using assms(2,3) by simp
  have "Emit' e ks ev = Inr ?e'"
    using assms(1) by (simp add: Emit'_def)
  moreover have "trace ?e' = trace e @ concat (map (syncDelivery ev) (before @ l # after))"
    using trace_deliveries_sync [OF assms(4) s] .
  moreover have "syncDelivery ev l = [Handle l ev, ErrorHandler ev err]"
    using assms(5) by (simp add: syncDelivery_def)
  moreover have "handled (trace ?e') = handled (trace e) @ before @ l # after"
    using handled_deliveries [OF s] .
  ultimately show ?thesis
    by simp
qed


theorem C6_failure_callback_witness:
  "\<exists>e'. Emit' (Register (Register New ''error.event'' (NewListener (Some failingHandle)))
             ''error.event'' (NewListener None)) [''error.event''] mockErrorEvent = Inr e' \<and>
     trace e' =
       [Handle (NewListener (Some failingHandle)) mockErrorEvent,
        ErrorHandler mockErrorEvent ''assert.AnError general error for testing'',
        Handle (NewListener None) mockErrorEvent]"
proof -
  let ?l1 = "NewListener (Some failingHandle)"
  let ?l2 = "NewListener None"
  let ?e = "Register (Register New ''error.event'' ?l1) ''error.event'' ?l2"
  have m: "MatchPattern ''error.event'' ''error.event'' = Inr True"
    by (simp add: MatchPattern_exact)
  have 1: "MatchedListeners' ?e [''error.event''] (eventType mockErrorEvent) = Inr ([] @ ?l1 # [?l2])"
    by (simp add: MatchedListeners'_def Register_def New_def subscribers_def mockErrorEvent_def m)
  have 2: "\<not> eventIsAsync mockErrorEvent"
    by (simp add: mockErrorEvent_def)
  have 3: "\<forall>x\<in>set ([] @ ?l1 # [?l2]). \<not> listenerIsAsync x"
    by (simp add: NewListener_def)
  have 4: "hasErrorHandler mockErrorEvent"
    by (simp add: mockErrorEvent_def)
  have 5: "handle ?l1 mockErrorEvent = Some ''assert.AnError general error for testing''"
    by (simp add: NewListener_def failingHandle_def)
  have 6: "trace ?e = []"
    by (simp add: Register_def New_def)
  have 7: "syncDelivery mockErrorEvent ?l2 = [Handle ?l2 mockErrorEvent]"
    by (simp add: syncDelivery_def NewListener_def nopHandle_def)
  show ?thesis
    using C6_failure_callback [OF 1 2 3 4 5] 6 7 by auto
qed




text \<open>
  C9.  \<open>L1\<close> is registered under \<open>user.*\<close> and \<open>L2\<close> under \<open>*.paid\<close>, in a new registry;
  \<open>ks\<close> is any order in which \<open>Range\<close> may visit the two patterns.  A publish of an event
  named \<open>user.created\<close> delivers to \<open>L1\<close> only, one named \<open>order.paid\<close> to \<open>L2\<close> only,
  and one named \<open>user.paid\<close> to both, once each.
\<close>

theorem C9_scenario:
  assumes "visits (Register (Register New ''user.*'' L1) ''*.paid'' L2) ks"
  shows "(eventType ev = ''user.created'' \<longrightarrow>
            (\<exists>e'. Emit (Register (Register New ''user.*'' L1) ''*.paid'' L2) ks ev = Inr e' \<and>
                  delivered (trace e') = [L1])) \<and>
         (eventType ev = ''order.paid'' \<longrightarrow>
            (\<exists>e'. Emit (Register (Register New ''user.*'' L1) ''*.paid'' L2) ks ev = Inr e' \<and>
                  delivered (trace e') = [L2])) \<and>
         (eventType ev = ''user.paid'' \<longrightarrow>
            (\<exists>e'. Emit (Register (Register New ''user.*'' L1) ''*.paid'' L2) ks ev = Inr e' \<and>
                  (delivered (trace e') = [L1, L2] \<or> delivered (trace e') = [L2, L1])))"
proof -
  let ?e = "Register (Register New ''user.*'' L1) ''*.paid'' L2"
  let ?A = "\<lambda>x. eventIsAsync ev \<or> listenerIsAsync x"
  have tbl: "listeners ?e = [''user.*'' \<mapsto> [L1], ''*.paid'' \<mapsto> [L2]]"
    by (simp add: Register_def New_def subscribers_def)
  have tr: "trace ?e = []"
    by (simp add: Register_def New_def)
  have "distinct ks" and "set ks = {''user.*'', ''*.paid''}"
    using assms tbl by (auto simp add: visits_def)
  then have ks: "ks = [''user.*'', ''*.paid''] \<or> ks = [''*.paid'', ''user.*'']"
    by (intro visits_pair) simp_all
  have p: "\<And>t. MatchPattern ''user.*'' t = Inr (prefix ''user.'' t)"
    using MatchPattern_prefix [of "''user.''"] by simp
  have q: "\<And>t. MatchPattern ''*.paid'' t = Inr (suffix ''.paid'' t)"
    using MatchPattern_suffix [of "''.paid''"] by simp
  have d: "\<And>ms. Emit' ?e ks ev = Inr (foldl (\<lambda>e' x. Trigger' e' ev x (?A x)) ?e ms) \<Longrightarrow>
             \<exists>e'. Emit ?e ks ev = Inr e' \<and> delivered (trace e') = ms"
    using tr by (simp add: Emit_def delivered_deliveries)
  have c1: "eventType ev = ''user.created'' \<Longrightarrow>
              \<exists>e'. Emit ?e ks ev = Inr e' \<and> delivered (trace e') = [L1]"
  proof -
    assume t: "eventType ev = ''user.created''"
    have "MatchedListeners' ?e ks (eventType ev) = Inr [L1]"
      using ks t by (auto simp add: MatchedListeners'_def tbl p q suffix_to_prefix)
    then show ?thesis
      by (intro d) (simp add: Emit'_def)
  qed
  have c2: "eventType ev = ''order.paid'' \<Longrightarrow>
              \<exists>e'. Emit ?e ks ev = Inr e' \<and> delivered (trace e') = [L2]"
  proof -
    assume t: "eventType ev = ''order.paid''"
    have "MatchedListeners' ?e ks (eventType ev) = Inr [L2]"
      using ks t by (auto simp add: MatchedListeners'_def tbl p q suffix_to_prefix)
    then show ?thesis
      by (intro d) (simp add: Emit'_def)
  qed
  have c3: "eventType ev = ''user.paid'' \<Longrightarrow>
              \<exists>e'. Emit ?e ks ev = Inr e' \<and>
                (delivered (trace e') = [L1, L2] \<or> delivered (trace e') = [L2, L1])"
  proof -
    assume t: "eventType ev = ''user.paid''"
    from ks show ?thesis
    proof
      assume k: "ks = [''user.*'', ''*.paid'']"
      have "MatchedListeners' ?e ks (eventType ev) = Inr [L1, L2]"
        using k t by (simp add: MatchedListeners'_def tbl p q suffix_to_prefix)
      then have "\<exists>e'. Emit ?e ks ev = Inr e' \<and> delivered (trace e') = [L1, L2]"
        by (intro d) (simp add: Emit'_def)
      then show ?thesis
        by blast
    next
      assume k: "ks = [''*.paid'', ''user.*'']"
      have "MatchedListeners' ?e ks (eventType ev) = Inr [L2, L1]"
        using k t by (simp add: MatchedListeners'_def tbl p q suffix_to_prefix)
      then have "\<exists>e'. Emit ?e ks ev = Inr e' \<and> delivered (trace e') = [L2, L1]"
        by (intro d) (simp add: Emit'_def)
      then show ?thesis
        by blast
    qed
  qed
  from c1 c2 c3 show ?thesis
    by blast
qed

theorem C9_scenario_witness:
  "visits (Register (Register New ''user.*'' (NewNamedListener ''L1'' None)) ''*.paid''
       (NewNamedListener ''L2'' None)) [''*.paid'', ''user.*''] \<and>
   (\<exists>e'. Emit (Register (Register New ''user.*'' (NewNamedListener ''L1'' None)) ''*.paid''
             (NewNamedListener ''L2'' None)) [''*.paid'', ''user.*'']
             (NewEvent ''user.created'' None) = Inr e' \<and>
         delivered (trace e') = [NewNamedListener ''L1'' None]) \<and>
   (\<exists>e'. Emit (Register (Register New ''user.*'' (NewNamedListener ''L1'' None)) ''*.paid''
             (NewNamedListener ''L2'' None)) [''*.paid'', ''user.*'']
             (NewEvent ''order.paid'' None) = Inr e' \<and>
         delivered (trace e') = [NewNamedListener ''L2'' None]) \<and>
   (\<exists>e'. Emit (Register (Register New ''user.*'' (NewNamedListener ''L1'' None)) ''*.paid''
             (NewNamedListener ''L2'' None)) [''*.paid'', ''user.*'']
             (NewEvent ''user.paid'' None) = Inr e' \<and>
         (delivered (trace e') = [NewNamedListener ''L1'' None, NewNamedListener ''L2'' None] \<or>
          delivered (trace e') = [NewNamedListener ''L2'' None, NewNamedListener ''L1'' None]))"
proof -
  let ?e = "Register (Register New ''user.*'' (NewNamedListener ''L1'' None)) ''*.paid''
       (NewNamedListener ''L2'' None)"
  have v: "visits ?e [''*.paid'', ''user.*'']"
    by (auto simp add: visits_def Register_def New_def)
  have 1: "eventType (NewEvent ''user.created'' None) = ''user.created''"
    and 2: "eventType (NewEvent ''order.paid'' None) = ''order.paid''"
    and 3: "eventType (NewEvent ''user.paid'' None) = ''user.paid''"
    by (simp_all add: NewEvent_def)
  show ?thesis
    using v C9_scenario [OF v, of "NewEvent ''user.created'' None"]
      C9_scenario [OF v, of "NewEvent ''order.paid'' None"]
      C9_scenario [OF v, of "NewEvent ''user.paid'' None"] 1 2 3
    by simp
qed

text \<open>
  C7 (as stated, false).  The claim gives a payload that is neither text nor raw bytes
  its serialized encoding.  For the \<open>nil\<close> payload the serializer does not fail and
  returns \<open>null\<close>, but \<open>_AnyToBytes\<close> returns before it is called: the event emitted has
  the \<open>nil\<close> payload, not the payload \<open>null\<close>.
\<close>

theorem C7_counterexample:
  "marshalNull AnyNil = Inr ''null'' \<and>
   EmitBy marshalNull (Register New ''t'' (NewListener None)) [''t''] ''t'' AnyNil
     = Emit' (Register New ''t'' (NewListener None)) [''t''] (NewEvent ''t'' None) \<and>
   Emit' (Register New ''t'' (NewListener None)) [''t''] (NewEvent ''t'' None)
     \<noteq> Emit' (Register New ''t'' (NewListener None)) [''t''] (NewEvent ''t'' (Some ''null''))"
proof -
  have m: "MatchPattern ''t'' ''t'' = Inr True"
    by (simp add: MatchPattern_exact)
  show ?thesis
    by (simp add: marshalNull_def EmitBy_def AnyToBytes'_def Emit'_def MatchedListeners'_def
        Register_def New_def subscribers_def NewEvent_def Trigger'_def NewListener_def
        nopHandle_def m)
qed

text \<open>
  C7 (amended).  \<open>EmitBy\<close> emits a payload that is an event as it is, whatever the type
  string; otherwise it emits the event of the given type whose payload is \<open>nil\<close> for the
  \<open>nil\<close> payload (no serialization is tried), the bytes of a text payload, a raw byte
  payload itself, and for any other payload its serialized encoding, or \<open>nil\<close> when the
  serialization fails.  A failed serialization does not abort the publish: \<open>EmitBy\<close>
  completes whenever the empty pattern is not registered.
\<close>

theorem C7_EmitBy_payload:
  "EmitBy marshal e ks t pl =
     (case pl of
        AnyEvent ev \<Rightarrow> Emit' e ks ev
      | AnyNil \<Rightarrow> Emit' e ks (NewEvent t None)
      | AnyString s \<Rightarrow> Emit' e ks (NewEvent t (Some s))
      | AnyBytes b \<Rightarrow> Emit' e ks (NewEvent t b)
      | AnyOther x \<Rightarrow>
          Emit' e ks (NewEvent t (case marshal pl of Inl err \<Rightarrow> None | Inr bz \<Rightarrow> Some bz))) \<and>
   ([] \<notin> set ks \<longrightarrow> (\<exists>r. EmitBy marshal e ks t pl = Inr r))"
proof
  show "EmitBy marshal e ks t pl =
     (case pl of
        AnyEvent ev \<Rightarrow> Emit' e ks ev
      | AnyNil \<Rightarrow> Emit' e ks (NewEvent t None)
      | AnyString s \<Rightarrow> Emit' e ks (NewEvent t (Some s))
      | AnyBytes b \<Rightarrow> Emit' e ks (NewEvent t b)
      | AnyOther x \<Rightarrow>
          Emit' e ks (NewEvent t (case marshal pl of Inl err \<Rightarrow> None | Inr bz \<Rightarrow> Some bz)))"
    by (cases pl) (simp_all add: EmitBy_def AnyToBytes'_def)
next
  show "[] \<notin> set ks \<longrightarrow> (\<exists>r. EmitBy marshal e ks t pl = Inr r)"
    by (cases pl) (simp_all add: EmitBy_def Emit_total)
qed

theorem C7_EmitBy_payload_witness:
  "[] \<notin> set [''test.event''] \<and>
   EmitBy marshalNull (Register New ''test.event'' (NewListener None)) [''test.event'']
       ''test.event'' (AnyBytes (Some ''test payload''))
     = Emit' (Register New ''test.event'' (NewListener None)) [''test.event'']
         (NewEvent ''test.event'' (Some ''test payload'')) \<and>
   (\<exists>r. EmitBy marshalNull (Register New ''test.event'' (NewListener None)) [''test.event'']
          ''test.event'' (AnyBytes (Some ''test payload'')) = Inr r)"
proof -
  note w = C7_EmitBy_payload [of marshalNull "Register New ''test.event'' (NewListener None)"
      "[''test.event'']" "''test.event''" "AnyBytes (Some ''test payload'')"]
  have n: "[] \<notin> set [''test.event'']"
    by simp
  have 1: "EmitBy marshalNull (Register New ''test.event'' (NewListener None)) [''test.event'']
       ''test.event'' (AnyBytes (Some ''test payload''))
     = Emit' (Register New ''test.event'' (NewListener None)) [''test.event'']
         (NewEvent ''test.event'' (Some ''test payload''))"
    using w by simp
  have 2: "\<exists>r. EmitBy marshalNull (Register New ''test.event'' (NewListener None)) [''test.event'']
          ''test.event'' (AnyBytes (Some ''test payload'')) = Inr r"
    using w n by blast
  from n 1 2 show ?thesis
    by blast
qed


section \<open>What a publish leaves in the table\<close>

text \<open>With bodies that leave the \<open>Eventify\<close> alone, the two models of a publish agree.\<close>

lemma Trigger_fx_noEffect: "Trigger_fx noEffect noCallbackEffect e ev l a = Trigger' e ev l a"
  by (simp add: Trigger_fx_def Trigger'_def noEffect_def noCallbackEffect_def Let_def
      split: option.splits)

lemma Emit_fx_noEffect: "Emit_fx noEffect noCallbackEffect e ks ev = Emit' e ks ev"
  by (simp add: Emit_fx_def Emit'_def Trigger_fx_noEffect split: sum.splits)

text \<open>
  Bodies that leave the trace alone do not change the calls of a publish, whatever they do
  to the table.
\<close>

lemma trace_deliveries_fx:
  assumes "\<And>l' ev' x. trace (fx l' ev' x) = trace x"
    and "\<And>ev' err x. trace (cb ev' err x) = trace x"
  shows "trace e = trace e' \<Longrightarrow>
         trace (foldl (\<lambda>x l. Trigger_fx fx cb x ev l (A l)) e ls)
           = trace (foldl (\<lambda>x l. Trigger' x ev l (A l)) e' ls)"
proof (induction ls arbitrary: e e')
  case Nil
  then show ?case by simp
next
  case (Cons l ls)
  have "trace (Trigger_fx fx cb e ev l (A l)) = trace (Trigger' e' ev l (A l))"
    using Cons.prems
    by (simp add: Trigger_fx_def Trigger'_def Let_def assms split: option.splits)
  from Cons.IH [OF this] show ?case
    by simp
qed

lemma Emit_fx_trace:
  assumes "\<And>l' ev' x. trace (fx l' ev' x) = trace x"
    and "\<And>ev' err x. trace (cb ev' err x) = trace x"
    and "Emit_fx fx cb e ks ev = Inr e1"
  shows "\<exists>e2. Emit' e ks ev = Inr e2 \<and> trace e1 = trace e2"
  using assms(3) trace_deliveries_fx [of fx cb e e, OF assms(1,2)]
  by (auto simp add: Emit_fx_def Emit'_def split: sum.splits)









end
